theory Spec2Isabelle
  imports Complex_Main
begin

section \<open>Python values\<close>

text \<open>
  A Python \<open>str\<close> is a sequence of code points and \<open>len\<close> counts them. It is modelled as
  a \<open>string\<close>, a character standing for a code point. Slicing, \<open>in\<close>, \<open>find\<close> and
  \<open>startswith\<close> use of a character only its identity. \<open>isdigit\<close> and the escapes of
  \<open>json.dumps\<close> inspect the code point; they are given for the code points 0 to 255.
  \<open>str.lower\<close> follows the Unicode tables, can change the number of code points and
  depends on the context of a character; it is a parameter of the functions that call it.
\<close>

definition isdigit_char :: "char \<Rightarrow> bool" where
  \<comment> \<open>the code points below 256 for which \<open>str.isdigit\<close> holds: 0-9 and the superscripts 2, 3, 1\<close>
  "isdigit_char c \<longleftrightarrow>
     (48 \<le> (of_char c :: nat) \<and> (of_char c :: nat) \<le> 57) \<or> (of_char c :: nat) \<in> {178, 179, 185}"

definition isdigit :: "string \<Rightarrow> bool" where
  "isdigit s \<longleftrightarrow> s \<noteq> [] \<and> list_all isdigit_char s"

definition startswith :: "string \<Rightarrow> string \<Rightarrow> bool" where
  "startswith s p \<longleftrightarrow> take (length p) s = p"

primrec str_in :: "string \<Rightarrow> string \<Rightarrow> bool" where
  \<comment> \<open>\<open>str_in sub s\<close> is Python's \<open>sub in s\<close>\<close>
  "str_in sub [] = (sub = [])"
| "str_in sub (c # cs) = (startswith (c # cs) sub \<or> str_in sub cs)"

primrec str_find :: "string \<Rightarrow> string \<Rightarrow> int" where
  \<comment> \<open>\<open>str_find s sub\<close> is \<open>s.find(sub)\<close>: the lowest index of an occurrence, or -1\<close>
  "str_find [] sub = (if sub = [] then 0 else -1)"
| "str_find (c # cs) sub =
     (if startswith (c # cs) sub then 0
      else (let r = str_find cs sub in if r < 0 then -1 else r + 1))"

definition norm_index :: "nat \<Rightarrow> int \<Rightarrow> nat" where
  \<comment> \<open>a slice bound, clipped to the sequence; a negative bound counts from the end\<close>
  "norm_index n i = (if i < 0 then nat (max 0 (int n + i)) else min n (nat i))"

definition py_slice :: "'a list \<Rightarrow> int \<Rightarrow> int \<Rightarrow> 'a list" where
  \<comment> \<open>\<open>xs[a:b]\<close>\<close>
  "py_slice xs a b =
     (let lo = norm_index (length xs) a; hi = norm_index (length xs) b
      in take (hi - lo) (drop lo xs))"

section \<open>Response trees\<close>

text \<open>
  The value \<open>json.loads\<close> returns: \<open>None\<close>, \<open>bool\<close>, \<open>int\<close>, \<open>float\<close>, \<open>str\<close>, \<open>list\<close>
  or \<open>dict\<close> (its items in insertion order). A finite float is kept as the rational it
  denotes; \<open>json.loads\<close> also accepts \<open>Infinity\<close>, \<open>-Infinity\<close> and \<open>NaN\<close>.
\<close>

datatype pyfloat = Finite rat | PosInf | NegInf | NaN

datatype json =
    JNull
  | JBool bool
  | JInt int
  | JFloat pyfloat
  | JStr string
  | JList "json list"
  | JDict "(string \<times> json) list"

fun descend :: "json \<Rightarrow> nat list \<Rightarrow> json option" where
  \<comment> \<open>the node reached from the root through arrays only, by the given element indices\<close>
  "descend j [] = Some j"
| "descend (JList xs) (i # p) = (if i < length xs then descend (xs ! i) p else None)"
| "descend _ (_ # _) = None"

section \<open>Space discovery in a pblite response\<close>

text \<open>An entry of the space list, the dict with the keys \<open>id\<close>, \<open>name\<close> and \<open>type\<close>.\<close>

record space =
  id_sp :: string
  name_sp :: "string option"
  type_sp :: string

definition is_room_id :: "string \<Rightarrow> bool" where
  \<comment> \<open>\<open>len(sub) == 11 and sub.startswith("AAAA")\<close>\<close>
  "is_room_id sub \<longleftrightarrow> length sub = 11 \<and> startswith sub ''AAAA''"

definition is_dm_id :: "string \<Rightarrow> bool" where
  \<comment> \<open>\<open>len(sub) == 21 and sub.isdigit()\<close>\<close>
  "is_dm_id sub \<longleftrightarrow> length sub = 21 \<and> isdigit sub"

text \<open>
  The three nested loops of \<open>find_spaces\<close> over one array \<open>item\<close>; the loop state is
  \<open>(space_id, space_name, space_type)\<close>.
\<close>

definition deep_step :: "json \<Rightarrow> string option \<times> string option \<times> string
    \<Rightarrow> string option \<times> string option \<times> string" where
  "deep_step deep st =
     (case st of (space_id, space_name, space_type) \<Rightarrow>
        (case deep of
           JStr s \<Rightarrow> if is_room_id s then (Some s, space_name, ''space'') else st
         | _ \<Rightarrow> st))"

definition nested_step :: "json \<Rightarrow> string option \<times> string option \<times> string
    \<Rightarrow> string option \<times> string option \<times> string" where
  "nested_step nested st =
     (case st of (space_id, space_name, space_type) \<Rightarrow>
        (case nested of
           JStr s \<Rightarrow>
             if is_room_id s then (Some s, space_name, ''space'')
             else if is_dm_id s then (Some s, space_name, ''dm'')
             else st
         | JList deeps \<Rightarrow> fold deep_step deeps st
         | _ \<Rightarrow> st))"

definition sub_step :: "json \<Rightarrow> string option \<times> string option \<times> string
    \<Rightarrow> string option \<times> string option \<times> string" where
  "sub_step sub st =
     (case st of (space_id, space_name, space_type) \<Rightarrow>
        (case sub of
           JStr s \<Rightarrow>
             if is_room_id s then (Some s, space_name, ''space'')
             else if is_dm_id s then (Some s, space_name, ''dm'')
             else if 3 < length s \<and> length s < 100 \<and> \<not> isdigit s
                     \<and> \<not> startswith s ''http'' \<and> space_name = None
                  then (space_id, Some s, space_type)
             else st
         | JList nesteds \<Rightarrow> fold nested_step nesteds st
         | _ \<Rightarrow> st))"

definition scan_item :: "json list \<Rightarrow> string option \<times> string option \<times> string" where
  "scan_item item = fold sub_step item (None, None, ''unknown'')"






section \<open>Server-side search: result extraction\<close>

text \<open>A search result, the dict with the keys \<open>text\<close>, \<open>snippet\<close> and \<open>source\<close>.\<close>

record search_hit =
  text_hit :: string
  snippet_hit :: string
  source_hit :: string

definition snippet_window :: "(string \<Rightarrow> string) \<Rightarrow> string \<Rightarrow> string \<Rightarrow> string" where
  \<comment> \<open>\<open>item[start:end]\<close>, the bounds computed from the first match in \<open>item.lower()\<close>\<close>
  "snippet_window lower item query =
     (let idx = str_find (lower item) (lower query);
          start = max 0 (idx - 50);
          end = min (int (length item)) (idx + int (length query) + 50)
      in py_slice item start end)"

definition search_hit :: "(string \<Rightarrow> string) \<Rightarrow> string \<Rightarrow> string \<Rightarrow> search_hit" where
  "search_hit lower item query =
     \<lparr>text_hit = item,
      snippet_hit = ''...'' @ snippet_window lower item query @ ''...'',
      source_hit = ''server_search''\<rparr>"

fun extract_search_results ::
    "(string \<Rightarrow> string) \<Rightarrow> json \<Rightarrow> string \<Rightarrow> nat \<Rightarrow> search_hit list"
  and extract_search_results_items ::
    "(string \<Rightarrow> string) \<Rightarrow> json list \<Rightarrow> string \<Rightarrow> nat \<Rightarrow> search_hit list" where
  "extract_search_results lower data query depth =
     (if depth > 15 then []
      else (case data of
              JList items \<Rightarrow> extract_search_results_items lower items query depth
            | _ \<Rightarrow> []))"
| "extract_search_results_items lower [] query depth = []"
| "extract_search_results_items lower (item # rest) query depth =
     (case item of
        JStr s \<Rightarrow>
          if length s > 10 \<and> str_in (lower query) (lower s)
          then [search_hit lower s query] else []
      | JList _ \<Rightarrow> extract_search_results lower item query (depth + 1)
      | _ \<Rightarrow> [])
     @ extract_search_results_items lower rest query depth"

definition lower_ascii :: "string \<Rightarrow> string" where
  \<comment> \<open>\<open>str.lower\<close> on a \<open>str\<close> of ASCII characters, for the examples\<close>
  "lower_ascii s =
     map (\<lambda>c. if 65 \<le> (of_char c :: nat) \<and> (of_char c :: nat) \<le> 90
              then char_of ((of_char c :: nat) + 32) else c) s"

section \<open>Batch RPC encoding\<close>















section \<open>Paginated topic parsing\<close>

text \<open>
  Exceptions are values, those of class \<open>Exception\<close>. \<open>JSONDecodeError\<close> is the one
  \<open>json.loads\<close> raises on malformed text; \<open>ValueError\<close> is raised by \<open>int\<close>; \<open>KeyError\<close>
  and \<open>TypeError\<close> by a subscript, an iteration or a hash; \<open>OtherError\<close> stands for any
  other exception, with its message.
\<close>

datatype exn = ValueError | JSONDecodeError | KeyError | TypeError | OtherError string

text \<open>
  An instance of \<open>int\<close>: \<open>isinstance(True, int)\<close> holds in Python, and a \<open>bool\<close> compares
  and counts as 0 or 1.
\<close>

datatype pyint = PyInt int | PyBool bool

fun ival :: "pyint \<Rightarrow> int" where
  "ival (PyInt i) = i"
| "ival (PyBool b) = (if b then 1 else 0)"

definition int_max_str_digits :: nat where
  \<comment> \<open>CPython's default limit on the length of a decimal string that \<open>int\<close> converts\<close>
  "int_max_str_digits = 4300"

definition py_int :: "string \<Rightarrow> int option" where
  \<comment> \<open>\<open>int(s)\<close> for a string with \<open>s.isdigit()\<close>; \<open>None\<close> is \<open>ValueError\<close> (a superscript
      digit, or more digits than the limit)\<close>
  "py_int s =
     (if length s \<le> int_max_str_digits
         \<and> list_all (\<lambda>c. 48 \<le> (of_char c :: nat) \<and> (of_char c :: nat) \<le> 57) s
      then Some (foldl (\<lambda>a c. 10 * a + (int (of_char c) - 48)) 0 s)
      else None)"

definition nth_opt :: "'a list \<Rightarrow> nat \<Rightarrow> 'a option" where
  \<comment> \<open>\<open>xs[i]\<close> under the guard \<open>len(xs) > i\<close>\<close>
  "nth_opt xs i = (if i < length xs then Some (xs ! i) else None)"

definition py_or :: "string option \<Rightarrow> string option \<Rightarrow> string option" where
  \<comment> \<open>\<open>a or b\<close> on values that are \<open>None\<close> or a \<open>str\<close>\<close>
  "py_or a b = (case a of Some s \<Rightarrow> if s \<noteq> [] then a else b | None \<Rightarrow> b)"

text \<open>
  A message, the dict \<open>try_parse_message\<close> builds (the keys \<open>text\<close> and \<open>space_id\<close> are the fields
  \<open>text_msg\<close> and \<open>space_id_msg\<close>), and a topic, the dict appended to \<open>topics\<close> (its keys \<open>topic_id\<close>,
  \<open>space_id\<close> and \<open>timestamp\<close> are the fields with the prefix \<open>t_\<close>).
\<close>

record message =
  message_id :: "string option"
  topic_id :: "string option"
  space_id_msg :: string
  text_msg :: string
  timestamp :: "string option"
  timestamp_usec :: "pyint option"
  sender :: json
  is_thread_reply :: bool
  reply_index :: nat

record topic =
  t_topic_id :: string
  t_space_id :: string
  t_timestamp :: "pyint option"
  message_count :: nat
  replies :: "message list"

record page =
  messages :: "message list"
  topics :: "topic list"
  has_more :: bool
  next_cursor :: "pyint option"
  total_topics :: nat
  total_messages :: nat

definition parse_timestamp :: "(int \<Rightarrow> string option) \<Rightarrow> pyint option \<Rightarrow> string option \<times> pyint option" where
  \<comment> \<open>\<open>fmt\<close> is \<open>datetime.fromtimestamp(ts / 1_000_000).strftime(...)\<close>, \<open>None\<close> when it
      raises; the argument is never a \<open>str\<close> here\<close>
  "parse_timestamp fmt ts =
     (case ts of
        None \<Rightarrow> (None, None)
      | Some t \<Rightarrow>
          if ival t = 0 then (None, None)
          else if ival t > 1000000000000
          then (case fmt (ival t) of Some s \<Rightarrow> (Some s, Some t) | None \<Rightarrow> (None, Some t))
          else (None, Some t))"

definition to_timestamp :: "json \<Rightarrow> exn + pyint option" where
  \<comment> \<open>\<open>if isinstance(ts, str) and ts.isdigit(): int(ts)  elif isinstance(ts, int): ts\<close>\<close>
  "to_timestamp ts =
     (case ts of
        JStr s \<Rightarrow>
          if isdigit s
          then (case py_int s of Some i \<Rightarrow> Inr (Some (PyInt i)) | None \<Rightarrow> Inl ValueError)
          else Inr None
      | JInt i \<Rightarrow> Inr (Some (PyInt i))
      | JBool b \<Rightarrow> Inr (Some (PyBool b))
      | _ \<Rightarrow> Inr None)"

definition id_in_slot0 :: "json list \<Rightarrow> string option" where
  \<comment> \<open>\<open>arr[0][1]\<close> when \<open>arr[0]\<close> is a list with more than one element and \<open>arr[0][1]\<close> a \<open>str\<close>\<close>
  "id_in_slot0 arr =
     (case nth_opt arr 0 of
        Some (JList a0) \<Rightarrow> (case nth_opt a0 1 of Some (JStr s) \<Rightarrow> Some s | _ \<Rightarrow> None)
      | _ \<Rightarrow> None)"

definition sender_in_slot1 :: "json list \<Rightarrow> json" where
  \<comment> \<open>\<open>arr[1][0][0]\<close> under the guards of the source, else \<open>None\<close>\<close>
  "sender_in_slot1 arr =
     (case nth_opt arr 1 of
        Some (JList a1) \<Rightarrow>
          (case nth_opt a1 0 of
             Some (JList a10) \<Rightarrow> (case nth_opt a10 0 of Some v \<Rightarrow> v | None \<Rightarrow> JNull)
           | _ \<Rightarrow> JNull)
      | _ \<Rightarrow> JNull)"

definition try_parse_message ::
    "(int \<Rightarrow> string option) \<Rightarrow> string \<Rightarrow> json \<Rightarrow> string option \<Rightarrow> exn + message option" where
  "try_parse_message fmt space arr tid =
     (case arr of
        JList a \<Rightarrow>
          if length a < 10 then Inr None
          else
            (let msg_text = (case a ! 9 of JStr s \<Rightarrow> Some s | _ \<Rightarrow> None)
             in case to_timestamp (a ! 2) of
                  Inl e \<Rightarrow> Inl e
                | Inr msg_timestamp \<Rightarrow>
                    (let msg_id = id_in_slot0 a; msg_sender = sender_in_slot1 a
                     in case msg_text of
                          Some txt \<Rightarrow>
                            if txt \<noteq> []
                            then Inr (Some
                              \<lparr>message_id = msg_id, topic_id = tid, space_id_msg = space,
                               text_msg = txt,
                               timestamp = fst (parse_timestamp fmt msg_timestamp),
                               timestamp_usec = snd (parse_timestamp fmt msg_timestamp),
                               sender = msg_sender, is_thread_reply = False, reply_index = 0\<rparr>)
                            else Inr None
                        | None \<Rightarrow> Inr None))
      | _ \<Rightarrow> Inr None)"

fun slot6_messages ::
    "(int \<Rightarrow> string option) \<Rightarrow> string \<Rightarrow> json list \<Rightarrow> string option \<Rightarrow> message list
      \<Rightarrow> exn + message list" where
  \<comment> \<open>the loop \<open>for msg_arr in arr[6]\<close>\<close>
  "slot6_messages fmt space [] tid topic_messages = Inr topic_messages"
| "slot6_messages fmt space (msg_arr # rest) tid topic_messages =
     (case msg_arr of
        JList _ \<Rightarrow>
          (case try_parse_message fmt space msg_arr tid of
             Inl e \<Rightarrow> Inl e
           | Inr (Some msg) \<Rightarrow> slot6_messages fmt space rest tid (topic_messages @ [msg])
           | Inr None \<Rightarrow> slot6_messages fmt space rest tid topic_messages)
      | _ \<Rightarrow> slot6_messages fmt space rest tid topic_messages)"

definition sort_ts :: "message \<Rightarrow> int" where
  \<comment> \<open>the sort key \<open>m.get("timestamp_usec") or 0\<close>\<close>
  "sort_ts m = (case timestamp_usec m of None \<Rightarrow> 0 | Some t \<Rightarrow> ival t)"

definition track_oldest :: "message \<Rightarrow> pyint option \<Rightarrow> pyint option" where
  "track_oldest msg oldest_timestamp =
     (case timestamp_usec msg of
        None \<Rightarrow> oldest_timestamp
      | Some ts \<Rightarrow>
          if ival ts \<noteq> 0
          then (case oldest_timestamp of
                  None \<Rightarrow> Some ts
                | Some old \<Rightarrow> if ival ts < ival old then Some ts else oldest_timestamp)
          else oldest_timestamp)"

definition mark_replies :: "message list \<Rightarrow> message list" where
  \<comment> \<open>\<open>for i, msg in enumerate(sorted_msgs): msg["is_thread_reply"] = i > 0; msg["reply_index"] = i\<close>\<close>
  "mark_replies sorted_msgs =
     map (\<lambda>(i, msg). msg\<lparr>is_thread_reply := i > 0, reply_index := i\<rparr>) (enumerate 0 sorted_msgs)"

text \<open>
  The state the nested functions share: \<open>(topics, messages, oldest_timestamp)\<close>.
  \<open>sorted\<close> is stable, as \<open>sort_key\<close> is.
\<close>

definition add_topic ::
    "string \<Rightarrow> string option \<Rightarrow> pyint option \<Rightarrow> message list
      \<Rightarrow> topic list \<times> message list \<times> pyint option \<Rightarrow> topic list \<times> message list \<times> pyint option" where
  \<comment> \<open>\<open>if topic_id and topic_messages: ...\<close>\<close>
  "add_topic space tid topic_timestamp topic_messages st =
     (case st of (tps, msgs, oldest_timestamp) \<Rightarrow>
        (case tid of
           None \<Rightarrow> st
         | Some t \<Rightarrow>
             if t \<noteq> [] \<and> topic_messages \<noteq> []
             then (let sorted_msgs = mark_replies (sort_key sort_ts topic_messages)
                   in (tps @ [\<lparr>t_topic_id = t, t_space_id = space, t_timestamp = topic_timestamp,
                               message_count = length sorted_msgs, replies = sorted_msgs\<rparr>],
                       msgs @ sorted_msgs,
                       fold track_oldest topic_messages oldest_timestamp))
             else st))"

fun extract_topic_and_messages ::
    "(int \<Rightarrow> string option) \<Rightarrow> string \<Rightarrow> json \<Rightarrow> nat \<Rightarrow> string option
      \<Rightarrow> topic list \<times> message list \<times> pyint option
      \<Rightarrow> exn + topic list \<times> message list \<times> pyint option"
  and fallback_scan ::
    "(int \<Rightarrow> string option) \<Rightarrow> string \<Rightarrow> json list \<Rightarrow> nat \<Rightarrow> string option
      \<Rightarrow> (topic list \<times> message list \<times> pyint option) \<times> message list
      \<Rightarrow> exn + (topic list \<times> message list \<times> pyint option) \<times> message list" where
  "extract_topic_and_messages fmt space arr depth parent_topic_id st =
     (if depth > 30 then Inr st
      else
        (case arr of
           JList a \<Rightarrow>
             (let tid = id_in_slot0 a
              in case (if length a > 1 then to_timestamp (a ! 1) else Inr None) of
                   Inl e \<Rightarrow> Inl e
                 | Inr topic_timestamp \<Rightarrow>
                     (case (case nth_opt a 6 of
                              Some (JList m6) \<Rightarrow>
                                slot6_messages fmt space m6 (py_or tid parent_topic_id) []
                            | _ \<Rightarrow> Inr []) of
                        Inl e \<Rightarrow> Inl e
                      | Inr found \<Rightarrow>
                          (case (if found = []
                                 then fallback_scan fmt space a depth (py_or tid parent_topic_id)
                                        (st, [])
                                 else Inr (st, found)) of
                             Inl e \<Rightarrow> Inl e
                           | Inr (st', topic_messages) \<Rightarrow>
                               Inr (add_topic space tid topic_timestamp topic_messages st'))))
         | _ \<Rightarrow> Inr st))"
| "fallback_scan fmt space [] depth tid acc = Inr acc"
| "fallback_scan fmt space (item # rest) depth tid (st, topic_messages) =
     (case item of
        JList _ \<Rightarrow>
          (case try_parse_message fmt space item tid of
             Inl e \<Rightarrow> Inl e
           | Inr (Some msg) \<Rightarrow> fallback_scan fmt space rest depth tid (st, topic_messages @ [msg])
           | Inr None \<Rightarrow>
               (case extract_topic_and_messages fmt space item (depth + 1) tid st of
                  Inl e \<Rightarrow> Inl e
                | Inr st' \<Rightarrow> fallback_scan fmt space rest depth tid (st', topic_messages)))
      | _ \<Rightarrow> fallback_scan fmt space rest depth tid (st, topic_messages))"

fun extract_all ::
    "(int \<Rightarrow> string option) \<Rightarrow> string \<Rightarrow> json list
      \<Rightarrow> topic list \<times> message list \<times> pyint option
      \<Rightarrow> exn + topic list \<times> message list \<times> pyint option" where
  \<comment> \<open>\<open>for topic_data in topics_array: extract_topic_and_messages(topic_data)\<close>\<close>
  "extract_all fmt space [] st = Inr st"
| "extract_all fmt space (topic_data # rest) st =
     (case extract_topic_and_messages fmt space topic_data 0 None st of
        Inl e \<Rightarrow> Inl e
      | Inr st' \<Rightarrow> extract_all fmt space rest st')"

fun dedupe :: "('a \<Rightarrow> string) \<Rightarrow> string set \<Rightarrow> 'a list \<Rightarrow> 'a list" where
  \<comment> \<open>the loop that keeps a message unless its key is already in the set of seen keys\<close>
  "dedupe key seen [] = []"
| "dedupe key seen (msg # rest) =
     (if key msg \<in> seen then dedupe key seen rest
      else msg # dedupe key (insert (key msg) seen) rest)"

definition text_key :: "message \<Rightarrow> string" where
  \<comment> \<open>\<open>msg.get("text", "")[:100]\<close>\<close>
  "text_key msg = py_slice (text_msg msg) 0 100"

definition topics_array :: "json \<Rightarrow> json list option" where
  "topics_array data =
     (case data of
        JList d \<Rightarrow>
          (case nth_opt d 0 of
             Some (JList d0) \<Rightarrow> (case nth_opt d0 1 of Some (JList ts) \<Rightarrow> Some ts | _ \<Rightarrow> None)
           | _ \<Rightarrow> None)
      | _ \<Rightarrow> None)"

definition contains_last_topic :: "json \<Rightarrow> bool" where
  \<comment> \<open>\<open>isinstance(data, list) and len(data) > 4 and data[4] is True\<close>\<close>
  "contains_last_topic data =
     (case data of JList d \<Rightarrow> nth_opt d 4 = Some (JBool True) | _ \<Rightarrow> False)"

definition parse_topics_with_threads ::
    "(int \<Rightarrow> string option) \<Rightarrow> json \<Rightarrow> string \<Rightarrow> exn + page" where
  "parse_topics_with_threads fmt data space =
     (case (case topics_array data of
              Some (t # ts) \<Rightarrow> extract_all fmt space (t # ts) ([], [], None)
            | _ \<Rightarrow> extract_topic_and_messages fmt space data 0 None ([], [], None)) of
        Inl e \<Rightarrow> Inl e
      | Inr (tps, msgs, oldest_timestamp) \<Rightarrow>
          (let unique_messages = dedupe text_key {} (sort_key (\<lambda>m. - sort_ts m) msgs)
           in Inr \<lparr>messages = unique_messages,
                   topics = tps,
                   has_more = (length tps > 0 \<and> \<not> contains_last_topic data
                               \<and> oldest_timestamp \<noteq> None),
                   next_cursor = oldest_timestamp,
                   total_topics = length tps,
                   total_messages = length unique_messages\<rparr>))"

text \<open>
  Three predicates for the proofs: what holds of every assembled topic; that \<open>old\<close> is the
  oldest truthy timestamp among the timestamps \<open>T\<close>, if there is one; and what holds of the
  state the nested functions share.
\<close>

definition topic_ok :: "topic \<Rightarrow> bool" where
  "topic_ok t \<longleftrightarrow>
     replies t \<noteq> [] \<and> sorted (map sort_ts (replies t)) \<and>
     (\<forall>i < length (replies t).
        is_thread_reply (replies t ! i) = (0 < i) \<and> reply_index (replies t ! i) = i) \<and>
     t_topic_id t \<noteq> [] \<and> (\<forall>m \<in> set (replies t). topic_id m = Some (t_topic_id t))"

definition oldest_of :: "pyint option set \<Rightarrow> pyint option \<Rightarrow> bool" where
  "oldest_of T old \<longleftrightarrow>
     (case old of
        None \<Rightarrow> (\<forall>d. Some d \<in> T \<longrightarrow> ival d = 0)
      | Some c \<Rightarrow>
          ival c \<noteq> 0 \<and> Some c \<in> T \<and> (\<forall>d. Some d \<in> T \<and> ival d \<noteq> 0 \<longrightarrow> ival c \<le> ival d))"

definition state_ok :: "topic list \<times> message list \<times> pyint option \<Rightarrow> bool" where
  "state_ok st \<longleftrightarrow>
     (case st of (tps, msgs, oldest_timestamp) \<Rightarrow>
        (\<forall>t \<in> set tps. topic_ok t) \<and>
        set msgs = (\<Union>t \<in> set tps. set (replies t)) \<and>
        oldest_of (timestamp_usec ` set msgs) oldest_timestamp)"

section \<open>Fetching several pages\<close>

definition truthy :: "pyint option \<Rightarrow> bool" where
  \<comment> \<open>the truth value of a value that is \<open>None\<close> or an \<open>int\<close>\<close>
  "truthy c = (case c of None \<Rightarrow> False | Some i \<Rightarrow> ival i \<noteq> 0)"

text \<open>
  \<open>get_messages_paginated\<close> builds the request and parses the answer. The parameter
  \<open>list_topics\<close> is the outcome of building the request and of
  \<open>_api_request_protojson("list_topics", request)\<close>, as a function of the space, the page
  size, the page size for replies (when \<open>include_replies\<close>) and the revision timestamp
  (when \<open>before_timestamp\<close> is truthy).
\<close>

definition get_messages_paginated ::
    "(int \<Rightarrow> string option) \<Rightarrow> (string \<Rightarrow> int \<Rightarrow> int option \<Rightarrow> pyint option \<Rightarrow> exn + json)
      \<Rightarrow> string \<Rightarrow> int \<Rightarrow> pyint option \<Rightarrow> bool \<Rightarrow> int \<Rightarrow> exn + page" where
  "get_messages_paginated fmt list_topics space_id page_size before_timestamp include_replies
      replies_per_topic =
     (case list_topics space_id page_size
             (if include_replies then Some replies_per_topic else None)
             (if truthy before_timestamp then before_timestamp else None) of
        Inl e \<Rightarrow> Inl e
      | Inr data \<Rightarrow> parse_topics_with_threads fmt data space_id)"

definition msg_key :: "message \<Rightarrow> string" where
  \<comment> \<open>\<open>msg.get("message_id") or msg.get("text", "")[:50]\<close>\<close>
  "msg_key msg =
     (case message_id msg of
        Some i \<Rightarrow> if i \<noteq> [] then i else py_slice (text_msg msg) 0 50
      | None \<Rightarrow> py_slice (text_msg msg) 0 50)"

text \<open>
  The loop of \<open>get_all_messages\<close>. \<open>paginated k space_id page_size cursor include_replies\<close> is
  the outcome of the call of \<open>get_messages_paginated\<close> in iteration \<open>k\<close>; the first numeric
  argument of \<open>fetch_pages\<close> is the number of iterations \<open>range(max_pages)\<close> still holds.
  Beside the outcome, the loop returns the cursor of every call it made, in order.
\<close>

fun fetch_pages ::
    "(nat \<Rightarrow> string \<Rightarrow> int \<Rightarrow> pyint option \<Rightarrow> bool \<Rightarrow> exn + page) \<Rightarrow> string \<Rightarrow> int \<Rightarrow> bool
      \<Rightarrow> nat \<Rightarrow> nat \<Rightarrow> pyint option \<Rightarrow> message list
      \<Rightarrow> (exn + message list) \<times> pyint option list" where
  "fetch_pages paginated space_id page_size include_replies 0 page_num cursor all_messages =
     (Inr all_messages, [])"
| "fetch_pages paginated space_id page_size include_replies (Suc n) page_num cursor all_messages =
     (case paginated page_num space_id page_size cursor include_replies of
        Inl e \<Rightarrow> (Inl e, [cursor])
      | Inr result \<Rightarrow>
          if \<not> has_more result \<or> \<not> truthy (next_cursor result)
          then (Inr (all_messages @ messages result), [cursor])
          else (case fetch_pages paginated space_id page_size include_replies n (Suc page_num)
                       (next_cursor result) (all_messages @ messages result) of
                  (out, calls) \<Rightarrow> (out, cursor # calls)))"

definition get_all_messages ::
    "(nat \<Rightarrow> string \<Rightarrow> int \<Rightarrow> pyint option \<Rightarrow> bool \<Rightarrow> exn + page) \<Rightarrow> string \<Rightarrow> int \<Rightarrow> int \<Rightarrow> bool
      \<Rightarrow> (exn + message list) \<times> pyint option list" where
  "get_all_messages paginated space_id max_pages page_size include_replies =
     (case fetch_pages paginated space_id page_size include_replies (nat max_pages) 0 None [] of
        (Inl e, calls) \<Rightarrow> (Inl e, calls)
      | (Inr all_messages, calls) \<Rightarrow> (Inr (dedupe msg_key {} all_messages), calls))"

subsection \<open>A sample response\<close>

text \<open>
  One topic \<open>T1\<close> with three messages, the third with the text of the first, in the layout
  the parser expects: \<open>data[0][1]\<close> is the array of topics, a topic has its id at
  \<open>[0][1]\<close> and its messages at index 6, a message its id at \<open>[0][1]\<close>, its timestamp at
  index 2 and its text at index 9.
\<close>

definition sample_message :: "string \<Rightarrow> string \<Rightarrow> string \<Rightarrow> json" where
  "sample_message mid ts txt =
     JList [JList [JNull, JStr mid], JList [JList [JStr ''u1'']], JStr ts,
            JNull, JNull, JNull, JNull, JNull, JNull, JStr txt]"

definition sample_response :: json where
  "sample_response =
     JList [JList [JNull,
       JList [JList [JList [JNull, JStr ''T1''], JStr ''1700000000000000'',
                     JNull, JNull, JNull, JNull,
                     JList [sample_message ''m1'' ''1700000000000002'' ''hello'',
                            sample_message ''m2'' ''1700000000000001'' ''hi there'',
                            sample_message ''m3'' ''1700000000000003'' ''hello'']]]]]"

definition sample_page :: page where
  "sample_page = projr (parse_topics_with_threads (\<lambda>_. None) sample_response ''S'')"

section \<open>Verified properties\<close>

subsection \<open>Space discovery\<close>

















lemma scan_item_last_room:
  "is_room_id s \<Longrightarrow> fst (scan_item (pre @ [JStr s])) = Some s"
  by (cases "fold sub_step pre (None, None, ''unknown'')") (simp add: scan_item_def sub_step_def)



subsection \<open>Strings\<close>

lemma str_find_first:
  assumes "i \<le> length s" and "take (length sub) (drop i s) = sub"
  shows "str_in sub s \<and>
         (\<exists>k \<le> i. str_find s sub = int k \<and> take (length sub) (drop k s) = sub \<and>
            (\<forall>j < k. take (length sub) (drop j s) \<noteq> sub))"
  using assms
proof (induction s arbitrary: i)
  case Nil
  then show ?case by auto
next
  case (Cons c cs)
  show ?case
  proof (cases "startswith (c # cs) sub")
    case True
    then have "take (length sub) (drop 0 (c # cs)) = sub"
      by (simp add: startswith_def)
    with True show ?thesis by auto
  next
    case False
    then have ne: "take (length sub) (c # cs) \<noteq> sub"
      by (simp add: startswith_def)
    with Cons.prems(2) obtain i' where i: "i = Suc i'"
      by (cases i) auto
    with Cons.prems have "i' \<le> length cs" and "take (length sub) (drop i' cs) = sub"
      by simp_all
    from Cons.IH[OF this] obtain k where k: "k \<le> i'" "str_find cs sub = int k"
      "take (length sub) (drop k cs) = sub" "\<forall>j < k. take (length sub) (drop j cs) \<noteq> sub"
      and "str_in sub cs"
      by blast
    have f: "str_find (c # cs) sub = int (Suc k)"
      using False k(2) by (simp add: Let_def)
    have "take (length sub) (drop j (c # cs)) \<noteq> sub" if "j < Suc k" for j
    proof (cases j)
      case 0
      with ne show ?thesis by simp
    next
      case (Suc j')
      with that k(4) show ?thesis by simp
    qed
    with f k(1,3) i \<open>str_in sub cs\<close> show ?thesis
      by (intro conjI exI[of _ "Suc k"]) simp_all
  qed
qed

lemma norm_index_int [simp]: "norm_index n (int k) = min n k"
  by (simp add: norm_index_def)

lemma py_slice_nat:
  "py_slice xs (int a) (int b) = take (min (length xs) b - a) (drop a xs)"
proof (cases "a \<le> length xs")
  case True
  then show ?thesis by (simp add: py_slice_def min_def)
next
  case False
  then show ?thesis by (simp add: py_slice_def)
qed

lemma snippet_window_first:
  assumes "str_find (lower item) (lower query) = int k"
  shows "snippet_window lower item query =
           take (min (length item) (k + length query + 50) - (k - 50)) (drop (k - 50) item)"
proof -
  have s: "max 0 (int k - 50) = int (k - 50)"
    by (simp add: max_def)
  have e: "min (int (length item)) (int k + int (length query) + 50)
             = int (min (length item) (k + length query + 50))"
    by (simp add: min_def)
  show ?thesis
    unfolding snippet_window_def Let_def assms s e by (simp add: py_slice_nat)
qed

subsection \<open>Search hits\<close>

declare extract_search_results.simps [simp del]

lemma extract_items_str:
  assumes "i < length items" and "items ! i = JStr s"
    and "length s > 10" and "str_in (lower query) (lower s)"
  shows "search_hit lower s query \<in> set (extract_search_results_items lower items query depth)"
  using assms(1,2)
proof (induction items arbitrary: i)
  case Nil
  then show ?case by simp
next
  case (Cons item rest)
  show ?case
  proof (cases i)
    case 0
    with Cons.prems assms(3,4) show ?thesis by simp
  next
    case (Suc j)
    with Cons.prems Cons.IH[of j] show ?thesis by simp
  qed
qed

lemma extract_items_list:
  assumes "i < length items" and "items ! i = JList xs"
  shows "set (extract_search_results lower (JList xs) query (depth + 1))
           \<subseteq> set (extract_search_results_items lower items query depth)"
  using assms
proof (induction items arbitrary: i)
  case Nil
  then show ?case by simp
next
  case (Cons item rest)
  show ?case
  proof (cases i)
    case 0
    with Cons.prems show ?thesis by simp
  next
    case (Suc j)
    with Cons.prems Cons.IH[of j] show ?thesis by auto
  qed
qed

lemma extract_search_results_reaches:
  assumes "descend data path = Some (JStr s)" and "path \<noteq> []"
    and "length path + depth \<le> 16"
    and "length s > 10" and "str_in (lower query) (lower s)"
  shows "search_hit lower s query \<in> set (extract_search_results lower data query depth)"
  using assms(1-3)
proof (induction path arbitrary: data depth)
  case Nil
  then show ?case by simp
next
  case (Cons i p)
  from Cons.prems(1) obtain items where data: "data = JList items" and i: "i < length items"
    and d: "descend (items ! i) p = Some (JStr s)"
    by (cases data) (auto split: if_splits)
  from Cons.prems(3) have depth: "\<not> depth > 15" by simp
  have "search_hit lower s query \<in> set (extract_search_results_items lower items query depth)"
  proof (cases p)
    case Nil
    with d have "items ! i = JStr s" by simp
    then show ?thesis
      by (rule extract_items_str[OF i _ assms(4,5)])
  next
    case (Cons j q)
    with d obtain xs where x: "items ! i = JList xs"
      by (cases "items ! i") auto
    have "search_hit lower s query
            \<in> set (extract_search_results lower (JList xs) query (depth + 1))"
      using Cons.IH[of "items ! i" "depth + 1"] d x Cons Cons.prems(3) by simp
    with extract_items_list[OF i x] show ?thesis by blast
  qed
  with data depth show ?case by (simp add: extract_search_results.simps)
qed

text \<open>
  C8, as stated, fails: the extractor only takes strings longer than 10 characters, so a
  short string leaf that contains the query is no hit.
\<close>

theorem C8_counterexample:
  "descend (JList [JList [JStr ''Deploy now'']]) [0, 0] = Some (JStr ''Deploy now'')
   \<and> take (length (lower_ascii ''deploy'')) (drop 0 (lower_ascii ''Deploy now''))
       = lower_ascii ''deploy''
   \<and> extract_search_results lower_ascii (JList [JList [JStr ''Deploy now'']]) ''deploy'' 0 = []"
  by code_simp

text \<open>
  C8 (amended): for every parsed fragment, every query and whatever \<open>str.lower\<close> returns,
  every string leaf longer than 10 characters that is reached from the fragment's root
  through arrays only, at most 16 levels down, and whose lower-cased text holds the
  lower-cased query at some position \<open>i\<close>, is returned by the extractor as a hit: its text
  is that string, its source is \<open>server_search\<close>, and its snippet is \<open>...\<close>, the slice
  of the string from \<open>k - 50\<close> (or 0) to \<open>k + len(query) + 50\<close> (or the end), \<open>...\<close>, where
  \<open>k\<close> is the first position of the lower-cased query in the lower-cased text.
\<close>

theorem C8_long_string_leaf_in_arrays_is_a_hit:
  assumes "descend data path = Some (JStr s)" and "path \<noteq> []" and "length path \<le> 16"
    and "length s > 10"
    and "i \<le> length (lower s)"
    and "take (length (lower query)) (drop i (lower s)) = lower query"
  shows "\<exists>h k. h \<in> set (extract_search_results lower data query 0)
           \<and> text_hit h = s \<and> source_hit h = ''server_search''
           \<and> k \<le> i \<and> take (length (lower query)) (drop k (lower s)) = lower query
           \<and> (\<forall>j < k. take (length (lower query)) (drop j (lower s)) \<noteq> lower query)
           \<and> snippet_hit h =
               ''...''
               @ take (min (length s) (k + length query + 50) - (k - 50)) (drop (k - 50) s)
               @ ''...''"
proof -
  from str_find_first[OF assms(5,6)] obtain k where k: "k \<le> i"
    "str_find (lower s) (lower query) = int k"
    "take (length (lower query)) (drop k (lower s)) = lower query"
    "\<forall>j < k. take (length (lower query)) (drop j (lower s)) \<noteq> lower query"
    and q: "str_in (lower query) (lower s)"
    by blast
  have "search_hit lower s query \<in> set (extract_search_results lower data query 0)"
    using extract_search_results_reaches[OF assms(1,2) _ assms(4) q, of 0] assms(3) by simp
  moreover have "snippet_hit (search_hit lower s query) =
      ''...''
      @ take (min (length s) (k + length query + 50) - (k - 50)) (drop (k - 50) s)
      @ ''...''"
    by (simp add: search_hit_def snippet_window_first[of lower s query k, OF k(2)])
  moreover have "text_hit (search_hit lower s query) = s"
    "source_hit (search_hit lower s query) = ''server_search''"
    by (simp_all add: search_hit_def)
  ultimately show ?thesis
    using k(1,3,4) by blast
qed

theorem C8_witness:
  "descend (JList [JList [JStr ''We will Deploy tonight'', JInt 3]]) [0, 0]
     = Some (JStr ''We will Deploy tonight'')
   \<and> take (length (lower_ascii ''deploy'')) (drop 8 (lower_ascii ''We will Deploy tonight''))
       = lower_ascii ''deploy''
   \<and> (\<exists>h k. h \<in> set (extract_search_results lower_ascii
                        (JList [JList [JStr ''We will Deploy tonight'', JInt 3]]) ''deploy'' 0)
         \<and> text_hit h = ''We will Deploy tonight'' \<and> k \<le> 8
         \<and> snippet_hit h =
             ''...''
             @ take (min (length ''We will Deploy tonight'') (k + length ''deploy'' + 50)
                     - (k - 50)) (drop (k - 50) ''We will Deploy tonight'')
             @ ''...'')
   \<and> extract_search_results lower_ascii
        (JList [JList [JStr ''We will Deploy tonight'', JInt 3]]) ''deploy'' 0
       = [\<lparr>text_hit = ''We will Deploy tonight'',
           snippet_hit = ''...We will Deploy tonight...'',
           source_hit = ''server_search''\<rparr>]"
proof -
  have d: "descend (JList [JList [JStr ''We will Deploy tonight'', JInt 3]]) [0, 0]
     = Some (JStr ''We will Deploy tonight'')"
    by simp
  have p: "[0, 0::nat] \<noteq> []" "length [0, 0::nat] \<le> 16"
    by simp_all
  have l: "length ''We will Deploy tonight'' > 10"
    by simp
  have i: "8 \<le> length (lower_ascii ''We will Deploy tonight'')"
    by (simp add: lower_ascii_def)
  have q: "take (length (lower_ascii ''deploy'')) (drop 8 (lower_ascii ''We will Deploy tonight''))
       = lower_ascii ''deploy''"
    by code_simp
  have v: "extract_search_results lower_ascii
        (JList [JList [JStr ''We will Deploy tonight'', JInt 3]]) ''deploy'' 0
       = [\<lparr>text_hit = ''We will Deploy tonight'',
           snippet_hit = ''...We will Deploy tonight...'',
           source_hit = ''server_search''\<rparr>]"
    by code_simp
  from C8_long_string_leaf_in_arrays_is_a_hit[OF d p l i q] d q v
  show ?thesis by blast
qed

subsection \<open>Batch RPC encoding\<close>



lemma of_char_digit: "d < 10 \<Longrightarrow> (of_char (char_of (48 + d :: nat)) :: nat) = 48 + d"
  by simp











subsection \<open>Topic assembly\<close>

lemma length_mark_replies [simp]: "length (mark_replies xs) = length xs"
  by (simp add: mark_replies_def)

lemma nth_mark_replies:
  "i < length xs \<Longrightarrow> mark_replies xs ! i = (xs ! i)\<lparr>is_thread_reply := 0 < i, reply_index := i\<rparr>"
  by (simp add: mark_replies_def nth_enumerate_eq)

lemma sort_ts_mark [simp]: "sort_ts (m\<lparr>is_thread_reply := b, reply_index := i\<rparr>) = sort_ts m"
  by (simp add: sort_ts_def)

lemma map_sort_ts_mark_replies: "map sort_ts (mark_replies xs) = map sort_ts xs"
  by (rule nth_equalityI) (simp_all add: nth_mark_replies)

lemma topic_id_mark_replies:
  assumes "\<forall>m \<in> set xs. topic_id m = tid" and "m \<in> set (mark_replies xs)"
  shows "topic_id m = tid"
proof -
  from assms(2) obtain i where "i < length xs" and "m = mark_replies xs ! i"
    by (auto simp: in_set_conv_nth)
  with assms(1) show ?thesis by (simp add: nth_mark_replies)
qed

lemma try_parse_message_topic_id:
  assumes "try_parse_message fmt space arr tid = Inr (Some m)"
  shows "topic_id m = tid"
proof (cases arr)
  case (JList a)
  show ?thesis
  proof (cases "to_timestamp (a ! 2)")
    case (Inl e)
    with assms JList show ?thesis
      by (simp add: try_parse_message_def split: if_splits)
  next
    case (Inr ts)
    with assms JList show ?thesis
      by (auto simp: try_parse_message_def Let_def split: if_splits option.splits)
  qed
qed (use assms in \<open>simp_all add: try_parse_message_def\<close>)

lemma slot6_messages_step:
  "slot6_messages fmt space (x # rest) tid acc =
     (case (case x of JList _ \<Rightarrow> try_parse_message fmt space x tid | _ \<Rightarrow> Inr None) of
        Inl e \<Rightarrow> Inl e
      | Inr r \<Rightarrow>
          slot6_messages fmt space rest tid (acc @ (case r of Some m \<Rightarrow> [m] | None \<Rightarrow> [])))"
  by (cases x) (simp_all split: sum.splits option.splits)

lemma slot6_messages_topic_id:
  "slot6_messages fmt space arrs tid acc = Inr ms \<Longrightarrow> \<forall>m \<in> set acc. topic_id m = tid
     \<Longrightarrow> \<forall>m \<in> set ms. topic_id m = tid"
proof (induction arrs arbitrary: acc)
  case Nil
  then show ?case by simp
next
  case (Cons x rest)
  from Cons.prems(1) obtain r where
    r: "(case x of JList _ \<Rightarrow> try_parse_message fmt space x tid | _ \<Rightarrow> Inr None) = Inr r"
    and rest: "slot6_messages fmt space rest tid (acc @ (case r of Some m \<Rightarrow> [m] | None \<Rightarrow> [])) = Inr ms"
    unfolding slot6_messages_step by (simp split: sum.splits)
  have "\<forall>m \<in> set (case r of Some m \<Rightarrow> [m] | None \<Rightarrow> []). topic_id m = tid"
  proof (cases r)
    case None
    then show ?thesis by simp
  next
    case (Some m)
    with r have "try_parse_message fmt space x tid = Inr (Some m)"
      by (cases x) simp_all
    then have "topic_id m = tid" by (rule try_parse_message_topic_id)
    with Some show ?thesis by simp
  qed
  with Cons.prems(2) have "\<forall>m \<in> set (acc @ (case r of Some m \<Rightarrow> [m] | None \<Rightarrow> [])). topic_id m = tid"
    by auto
  with Cons.IH[OF rest] show ?case by blast
qed

lemma py_or_Some: "t \<noteq> [] \<Longrightarrow> py_or (Some t) parent = Some t"
  by (simp add: py_or_def)

lemma add_topic_skip:
  "\<not> (\<exists>t. tid = Some t \<and> t \<noteq> [] \<and> topic_messages \<noteq> []) \<Longrightarrow>
     add_topic space tid ts topic_messages st = st"
  by (cases st; cases tid) (auto simp: add_topic_def)

lemma add_topic_new:
  "t \<noteq> [] \<Longrightarrow> topic_messages \<noteq> [] \<Longrightarrow>
     add_topic space (Some t) ts topic_messages (tps, msgs, old) =
       (tps @ [\<lparr>t_topic_id = t, t_space_id = space, t_timestamp = ts,
                 message_count = length (mark_replies (sort_key sort_ts topic_messages)),
                 replies = mark_replies (sort_key sort_ts topic_messages)\<rparr>],
        msgs @ mark_replies (sort_key sort_ts topic_messages),
        fold track_oldest topic_messages old)"
  by (simp add: add_topic_def Let_def)

lemma new_topic_ok:
  assumes "t \<noteq> []" and "topic_messages \<noteq> []"
    and "\<forall>m \<in> set topic_messages. topic_id m = Some t"
  shows "topic_ok \<lparr>t_topic_id = t, t_space_id = space, t_timestamp = ts,
            message_count = length (mark_replies (sort_key sort_ts topic_messages)),
            replies = mark_replies (sort_key sort_ts topic_messages)\<rparr>"
proof -
  let ?s = "sort_key sort_ts topic_messages"
  have "length (mark_replies ?s) = length topic_messages"
    by simp
  with assms(2) have ne: "mark_replies ?s \<noteq> []"
    by (metis length_0_conv)
  have srt: "sorted (map sort_ts (mark_replies ?s))"
    by (simp add: map_sort_ts_mark_replies sorted_sort_key)
  have flags: "\<forall>i < length (mark_replies ?s).
      is_thread_reply (mark_replies ?s ! i) = (0 < i) \<and> reply_index (mark_replies ?s ! i) = i"
    by (simp add: nth_mark_replies)
  have "\<forall>m \<in> set ?s. topic_id m = Some t"
    using assms(3) by simp
  then have ids: "\<forall>m \<in> set (mark_replies ?s). topic_id m = Some t"
    using topic_id_mark_replies by blast
  show ?thesis
    unfolding topic_ok_def using ne srt flags ids assms(1) by simp
qed

lemma timestamp_usec_mark_replies:
  "timestamp_usec ` set (mark_replies xs) = timestamp_usec ` set xs"
proof -
  have "map timestamp_usec (mark_replies xs) = map timestamp_usec xs"
    by (rule nth_equalityI) (simp_all add: nth_mark_replies)
  then have "set (map timestamp_usec (mark_replies xs)) = set (map timestamp_usec xs)"
    by simp
  then show ?thesis by simp
qed

lemma track_oldest_step:
  assumes "oldest_of T old"
  shows "oldest_of (insert (timestamp_usec m) T) (track_oldest m old)"
proof (cases "timestamp_usec m")
  case None
  with assms show ?thesis
    by (auto simp: oldest_of_def track_oldest_def split: option.splits)
next
  case (Some ts)
  show ?thesis
  proof (cases old)
    case None
    with assms Some show ?thesis
      by (auto simp: oldest_of_def track_oldest_def)
  next
    case (Some c)
    with assms \<open>timestamp_usec m = Some ts\<close> show ?thesis
      by (auto simp: oldest_of_def track_oldest_def)
  qed
qed

lemma fold_track_oldest:
  "oldest_of T old \<Longrightarrow>
     oldest_of (T \<union> timestamp_usec ` set xs) (fold track_oldest xs old)"
proof (induction xs arbitrary: T old)
  case Nil
  then show ?case by simp
next
  case (Cons x xs)
  from Cons.IH[OF track_oldest_step[OF Cons.prems, of x]]
  show ?case by simp
qed

lemma state_ok_append:
  assumes "state_ok (tps, msgs, old)" and "topic_ok tp"
    and "oldest_of (timestamp_usec ` set msgs \<union> timestamp_usec ` set (replies tp)) old'"
  shows "state_ok (tps @ [tp], msgs @ replies tp, old')"
proof -
  from assms(1) have a: "\<forall>t \<in> set tps. topic_ok t"
    and b: "set msgs = (\<Union>t \<in> set tps. set (replies t))"
    by (simp_all add: state_ok_def)
  have "\<forall>t \<in> set (tps @ [tp]). topic_ok t"
    using a assms(2) by simp
  moreover have "set (msgs @ replies tp) = (\<Union>t \<in> set (tps @ [tp]). set (replies t))"
    using b by auto
  moreover have "oldest_of (timestamp_usec ` set (msgs @ replies tp)) old'"
    using assms(3) by (simp add: image_Un)
  ultimately show ?thesis
    by (simp add: state_ok_def)
qed

lemma add_topic_ok:
  assumes "state_ok st" and "\<forall>m \<in> set topic_messages. topic_id m = py_or tid parent"
  shows "state_ok (add_topic space tid ts topic_messages st)"
proof (cases "\<exists>t. tid = Some t \<and> t \<noteq> [] \<and> topic_messages \<noteq> []")
  case False
  with assms(1) show ?thesis
    by (simp add: add_topic_skip)
next
  case True
  then obtain t where t: "tid = Some t" "t \<noteq> []" "topic_messages \<noteq> []" by blast
  obtain tps msgs old where st: "st = (tps, msgs, old)" by (cases st)
  let ?tp = "\<lparr>t_topic_id = t, t_space_id = space, t_timestamp = ts,
            message_count = length (mark_replies (sort_key sort_ts topic_messages)),
            replies = mark_replies (sort_key sort_ts topic_messages)\<rparr>"
  have "\<forall>m \<in> set topic_messages. topic_id m = Some t"
    using assms(2) t by (simp add: py_or_Some)
  then have ok: "topic_ok ?tp"
    by (rule new_topic_ok[OF t(2,3)])
  have "oldest_of (timestamp_usec ` set msgs) old"
    using assms(1) unfolding st state_ok_def prod.case by blast
  then have "oldest_of (timestamp_usec ` set msgs \<union> timestamp_usec ` set topic_messages)
      (fold track_oldest topic_messages old)"
    by (rule fold_track_oldest)
  then have "oldest_of (timestamp_usec ` set msgs \<union> timestamp_usec ` set (replies ?tp))
      (fold track_oldest topic_messages old)"
    by (simp add: timestamp_usec_mark_replies)
  from state_ok_append[OF assms(1)[unfolded st] ok this]
  show ?thesis
    unfolding st t(1) add_topic_new[OF t(2,3)] by simp
qed

declare extract_topic_and_messages.simps [simp del]

lemma extract_skip:
  "depth > 30 \<or> (\<forall>a. arr \<noteq> JList a) \<Longrightarrow>
     extract_topic_and_messages fmt space arr depth parent st = Inr st"
  by (cases arr) (auto simp: extract_topic_and_messages.simps)

lemma extract_Inr:
  assumes "\<not> depth > 30"
    and "extract_topic_and_messages fmt space (JList a) depth parent st = Inr st'"
  obtains tts found stf tms where
    "(if 1 < length a then to_timestamp (a ! 1) else Inr None) = Inr tts"
    and "(case nth_opt a 6 of None \<Rightarrow> Inr []
          | Some (JList m6) \<Rightarrow> slot6_messages fmt space m6 (py_or (id_in_slot0 a) parent) []
          | Some _ \<Rightarrow> Inr []) = Inr found"
    and "(if found = [] then fallback_scan fmt space a depth (py_or (id_in_slot0 a) parent) (st, [])
         else Inr (st, found)) = Inr (stf, tms)"
    and "st' = add_topic space (id_in_slot0 a) tts tms stf"
proof -
  let ?T = "if 1 < length a then to_timestamp (a ! 1) else Inr None"
  let ?S = "case nth_opt a 6 of None \<Rightarrow> Inr []
          | Some (JList m6) \<Rightarrow> slot6_messages fmt space m6 (py_or (id_in_slot0 a) parent) []
          | Some _ \<Rightarrow> Inr []"
  have eq: "extract_topic_and_messages fmt space (JList a) depth parent st =
      (case ?T of Inl e \<Rightarrow> Inl e
       | Inr tts \<Rightarrow>
          (case ?S of Inl e \<Rightarrow> Inl e
           | Inr found \<Rightarrow>
              (case (if found = []
                     then fallback_scan fmt space a depth (py_or (id_in_slot0 a) parent) (st, [])
                     else Inr (st, found)) of
                 Inl e \<Rightarrow> Inl e
               | Inr (stf, tms) \<Rightarrow> Inr (add_topic space (id_in_slot0 a) tts tms stf))))"
    using assms(1) by (simp add: extract_topic_and_messages.simps Let_def)
  from assms(2) obtain tts where t: "?T = Inr tts"
    unfolding eq by (cases ?T) simp_all
  from assms(2) obtain found where f: "?S = Inr found"
    unfolding eq t by (cases ?S) simp_all
  let ?F = "if found = []
            then fallback_scan fmt space a depth (py_or (id_in_slot0 a) parent) (st, [])
            else Inr (st, found)"
  from assms(2) obtain r where r: "?F = Inr r"
    unfolding eq t f by (cases ?F) simp_all
  obtain stf tms where p: "r = (stf, tms)" by (cases r)
  from assms(2) have "st' = add_topic space (id_in_slot0 a) tts tms stf"
    unfolding eq t f by (simp add: r p)
  with that t f r p show ?thesis by blast
qed

lemma slot6_found_topic_id:
  assumes "(case nth_opt a 6 of None \<Rightarrow> Inr []
          | Some (JList m6) \<Rightarrow> slot6_messages fmt space m6 tid []
          | Some _ \<Rightarrow> Inr []) = Inr found"
  shows "\<forall>m \<in> set found. topic_id m = tid"
proof (cases "nth_opt a 6")
  case None
  with assms show ?thesis by simp
next
  case (Some x)
  show ?thesis
  proof (cases x)
    case (JList m6)
    with assms Some have "slot6_messages fmt space m6 tid [] = Inr found" by simp
    from slot6_messages_topic_id[OF this] show ?thesis by simp
  qed (use assms Some in simp_all)
qed

lemma extract_state_ok:
  "state_ok st \<Longrightarrow>
     extract_topic_and_messages fmt space arr depth parent st = Inr st' \<Longrightarrow> state_ok st'"
  "state_ok (fst acc) \<Longrightarrow> \<forall>m \<in> set (snd acc). topic_id m = tid \<Longrightarrow>
     fallback_scan fmt space items depth tid acc = Inr acc' \<Longrightarrow>
     state_ok (fst acc') \<and> (\<forall>m \<in> set (snd acc'). topic_id m = tid)"
proof (induction fmt space arr depth parent st and fmt space items depth tid acc
       arbitrary: st' and acc' rule: extract_topic_and_messages_fallback_scan.induct)
  case (1 fmt space arr depth parent st)
  show ?case
  proof (cases "depth > 30 \<or> (\<forall>a. arr \<noteq> JList a)")
    case True
    from "1.prems"(2) have "st' = st"
      unfolding extract_skip[OF True] by simp
    with "1.prems"(1) show ?thesis by simp
  next
    case False
    then obtain a where d: "\<not> depth > 30" and arr: "arr = JList a" by auto
    let ?tid = "py_or (id_in_slot0 a) parent"
    from d "1.prems"(2)[unfolded arr] obtain tts found stf tms where
      tts: "(if 1 < length a then to_timestamp (a ! 1) else Inr None) = Inr tts"
      and found: "(case nth_opt a 6 of None \<Rightarrow> Inr []
            | Some (JList m6) \<Rightarrow> slot6_messages fmt space m6 ?tid []
            | Some _ \<Rightarrow> Inr []) = Inr found"
      and scan: "(if found = [] then fallback_scan fmt space a depth ?tid (st, [])
                  else Inr (st, found)) = Inr (stf, tms)"
      and res: "st' = add_topic space (id_in_slot0 a) tts tms stf"
      by (rule extract_Inr)
    have fnd: "\<forall>m \<in> set found. topic_id m = ?tid"
      using found by (rule slot6_found_topic_id)
    have "state_ok stf \<and> (\<forall>m \<in> set tms. topic_id m = ?tid)"
    proof (cases "found = []")
      case True
      with scan have "fallback_scan fmt space a depth ?tid (st, []) = Inr (stf, tms)" by simp
      from "1.IH"[OF d arr refl tts found True _ _ this] "1.prems"(1)
      show ?thesis by simp
    next
      case False
      with scan have "stf = st" "tms = found" by simp_all
      with fnd "1.prems"(1) show ?thesis by simp
    qed
    then show ?thesis
      unfolding res using add_topic_ok[of stf tms "id_in_slot0 a" parent] by simp
  qed
next
  case (2 fmt space depth tid acc)
  then show ?case by simp
next
  case (3 fmt space item rest depth tid st topic_messages)
  show ?case
  proof (cases item)
    case (JList x6)
    show ?thesis
    proof (cases "try_parse_message fmt space item tid")
      case (Inl e)
      with "3.prems"(3) JList show ?thesis by simp
    next
      case (Inr b)
      show ?thesis
      proof (cases b)
        case None
        show ?thesis
        proof (cases "extract_topic_and_messages fmt space item (depth + 1) tid st")
          case (Inl e)
          with "3.prems"(3) JList \<open>try_parse_message fmt space item tid = Inr b\<close> None
          show ?thesis by simp
        next
          case ex: (Inr ba)
          with "3.prems"(3) JList Inr None have
            rest: "fallback_scan fmt space rest depth tid (ba, topic_messages) = Inr acc'"
            by simp
          have "state_ok ba"
            using "3.IH"(6)[OF JList Inr None _ ex] "3.prems"(1) by simp
          with "3.IH"(7)[OF JList Inr None ex _ _ rest] "3.prems"(2)
          show ?thesis by simp
        qed
      next
        case (Some msg)
        with "3.prems"(3) JList Inr have
          rest: "fallback_scan fmt space rest depth tid (st, topic_messages @ [msg]) = Inr acc'"
          by simp
        have "topic_id msg = tid"
          using Inr Some try_parse_message_topic_id by blast
        with "3.IH"(8)[OF JList Inr Some _ _ rest] "3.prems"(1,2)
        show ?thesis by simp
      qed
    qed
  next
    case JNull
    with "3.IH"(1)[OF JNull] "3.prems" show ?thesis by simp
  next
    case (JBool b)
    with "3.IH"(2)[OF JBool] "3.prems" show ?thesis by simp
  next
    case (JInt i)
    with "3.IH"(3)[OF JInt] "3.prems" show ?thesis by simp
  next
    case (JFloat f)
    with "3.IH"(4)[OF JFloat] "3.prems" show ?thesis by simp
  next
    case (JStr s)
    with "3.IH"(5)[OF JStr] "3.prems" show ?thesis by simp
  next
    case (JDict kvs)
    with "3.IH"(9)[OF JDict] "3.prems" show ?thesis by simp
  qed
qed

lemma extract_all_state_ok:
  "state_ok st \<Longrightarrow> extract_all fmt space xs st = Inr st' \<Longrightarrow> state_ok st'"
proof (induction xs arbitrary: st)
  case Nil
  then show ?case by simp
next
  case (Cons x xs)
  from Cons.prems(2) obtain st1 where
    a: "extract_topic_and_messages fmt space x 0 None st = Inr st1"
    and b: "extract_all fmt space xs st1 = Inr st'"
    by (simp split: sum.splits)
  from extract_state_ok(1)[OF Cons.prems(1) a] have "state_ok st1" .
  from Cons.IH[OF this b] show ?case .
qed

lemma state_ok_init: "state_ok ([], [], None)"
  by (simp add: state_ok_def oldest_of_def)

lemma parse_Inr:
  assumes "parse_topics_with_threads fmt data space = Inr r"
  obtains tps msgs old where "state_ok (tps, msgs, old)"
    and "messages r = dedupe text_key {} (sort_key (\<lambda>m. - sort_ts m) msgs)"
    and "topics r = tps" and "next_cursor r = old"
    and "has_more r \<longleftrightarrow> tps \<noteq> [] \<and> \<not> contains_last_topic data \<and> old \<noteq> None"
proof -
  let ?E = "case topics_array data of
              None \<Rightarrow> extract_topic_and_messages fmt space data 0 None ([], [], None)
            | Some [] \<Rightarrow> extract_topic_and_messages fmt space data 0 None ([], [], None)
            | Some (t # ts) \<Rightarrow> extract_all fmt space (t # ts) ([], [], None)"
  from assms obtain st where E: "?E = Inr st"
    unfolding parse_topics_with_threads_def by (cases ?E) simp_all
  have ok: "state_ok st"
  proof (cases "topics_array data")
    case None
    with E show ?thesis
      using extract_state_ok(1)[OF state_ok_init] by simp
  next
    case (Some xs)
    show ?thesis
    proof (cases xs)
      case Nil
      with E Some show ?thesis
        using extract_state_ok(1)[OF state_ok_init] by simp
    next
      case (Cons t ts)
      with E Some have "extract_all fmt space xs ([], [], None) = Inr st"
        by simp
      with state_ok_init show ?thesis
        by (rule extract_all_state_ok)
    qed
  qed
  obtain tps msgs old where st: "st = (tps, msgs, old)" by (cases st) auto
  from assms have "r = \<lparr>messages = dedupe text_key {} (sort_key (\<lambda>m. - sort_ts m) msgs),
                   topics = tps,
                   has_more = (length tps > 0 \<and> \<not> contains_last_topic data \<and> old \<noteq> None),
                   next_cursor = old,
                   total_topics = length tps,
                   total_messages = length (dedupe text_key {} (sort_key (\<lambda>m. - sort_ts m) msgs))\<rparr>"
    unfolding parse_topics_with_threads_def E st by (simp add: Let_def)
  then have "messages r = dedupe text_key {} (sort_key (\<lambda>m. - sort_ts m) msgs)"
    "topics r = tps" "next_cursor r = old"
    "has_more r \<longleftrightarrow> tps \<noteq> [] \<and> \<not> contains_last_topic data \<and> old \<noteq> None"
    by simp_all
  with that ok[unfolded st] show ?thesis by blast
qed

subsection \<open>Deduplication\<close>

lemma dedupe_subset: "set (dedupe key seen xs) \<subseteq> set xs"
  by (induction xs arbitrary: seen) auto



lemma dedupe_keys: "key ` set (dedupe key seen xs) \<union> seen = key ` set xs \<union> seen"
proof (induction xs arbitrary: seen)
  case Nil
  then show ?case by simp
next
  case (Cons x xs)
  show ?case
  proof (cases "key x \<in> seen")
    case True
    with Cons.IH[of seen] show ?thesis by auto
  next
    case False
    with Cons.IH[of "insert (key x) seen"] show ?thesis by auto
  qed
qed


lemma dedupe_first:
  "x \<in> set xs \<Longrightarrow> key x \<notin> seen \<Longrightarrow> \<exists>y \<in> set (dedupe key seen xs). key y = key x"
  using dedupe_keys[of key seen xs] by (metis UnE UnI1 imageE imageI)





lemma sort_ts_eq: "sort_ts = (\<lambda>m. case timestamp_usec m of None \<Rightarrow> 0 | Some ts \<Rightarrow> ival ts)"
  by (rule ext) (simp add: sort_ts_def)



lemma contains_last_topic_iff:
  "contains_last_topic data \<longleftrightarrow> (\<exists>d. data = JList d \<and> 4 < length d \<and> d ! 4 = JBool True)"
  by (cases data) (auto simp: contains_last_topic_def nth_opt_def)

subsection \<open>The parsed page\<close>

text \<open>
  C3: in every topic of a parsed page the replies are a non-empty list in non-decreasing
  order of \<open>timestamp_usec or 0\<close>, the message at position \<open>i\<close> has \<open>reply_index = i\<close>, and
  \<open>is_thread_reply\<close> is false at position 0 and true at every other position.
\<close>

theorem C3_replies_sorted_and_indexed:
  assumes "parse_topics_with_threads fmt data space = Inr r" and "t \<in> set (topics r)"
  shows "replies t \<noteq> []
         \<and> sorted (map (\<lambda>m. case timestamp_usec m of None \<Rightarrow> 0 | Some ts \<Rightarrow> ival ts)
                        (replies t))
         \<and> (\<forall>i < length (replies t).
               is_thread_reply (replies t ! i) = (0 < i) \<and> reply_index (replies t ! i) = i)"
proof -
  from assms(1) obtain tps msgs old where "state_ok (tps, msgs, old)" and "topics r = tps"
    by (rule parse_Inr)
  with assms(2) have "topic_ok t"
    by (simp add: state_ok_def)
  then have "replies t \<noteq> [] \<and> sorted (map sort_ts (replies t))
         \<and> (\<forall>i < length (replies t).
               is_thread_reply (replies t ! i) = (0 < i) \<and> reply_index (replies t ! i) = i)"
    by (simp add: topic_ok_def)
  then show ?thesis
    unfolding sort_ts_eq .
qed

theorem C3_witness:
  "parse_topics_with_threads (\<lambda>_. None) sample_response ''S'' = Inr sample_page
   \<and> hd (topics sample_page) \<in> set (topics sample_page)
   \<and> map (\<lambda>m. (message_id m, sort_ts m, is_thread_reply m, reply_index m))
          (replies (hd (topics sample_page)))
       = [(Some ''m2'', 1700000000000001, False, 0), (Some ''m1'', 1700000000000002, True, 1),
          (Some ''m3'', 1700000000000003, True, 2)]
   \<and> sorted (map (\<lambda>m. case timestamp_usec m of None \<Rightarrow> 0 | Some ts \<Rightarrow> ival ts)
                  (replies (hd (topics sample_page))))"
proof -
  have e: "parse_topics_with_threads (\<lambda>_. None) sample_response ''S'' = Inr sample_page"
    unfolding sample_page_def by code_simp
  have t: "hd (topics sample_page) \<in> set (topics sample_page)"
    unfolding sample_page_def by code_simp
  have v: "map (\<lambda>m. (message_id m, sort_ts m, is_thread_reply m, reply_index m))
          (replies (hd (topics sample_page)))
       = [(Some ''m2'', 1700000000000001, False, 0), (Some ''m1'', 1700000000000002, True, 1),
          (Some ''m3'', 1700000000000003, True, 2)]"
    unfolding sample_page_def by code_simp
  from C3_replies_sorted_and_indexed[OF e t] e t v show ?thesis
    unfolding sort_ts_eq by simp
qed

text \<open>
  C4: \<open>has_more\<close> is true exactly when the page has a topic, \<open>data[4]\<close> is not \<open>True\<close> and
  the cursor is not \<open>None\<close>; so it is never true with a \<open>None\<close> cursor. The cursor is the
  oldest truthy timestamp of the messages in the topics, and \<open>None\<close> when there is none;
  hence a cursor that is not \<open>None\<close> is truthy.
\<close>

theorem C4_has_more_iff:
  assumes "parse_topics_with_threads fmt data space = Inr r"
  shows "(has_more r \<longleftrightarrow>
            topics r \<noteq> []
            \<and> \<not> (\<exists>d. data = JList d \<and> 4 < length d \<and> d ! 4 = JBool True)
            \<and> next_cursor r \<noteq> None)
         \<and> (next_cursor r = None \<longrightarrow> \<not> has_more r)
         \<and> oldest_of (timestamp_usec ` (\<Union>t \<in> set (topics r). set (replies t))) (next_cursor r)
         \<and> (\<forall>c. next_cursor r = Some c \<longrightarrow> ival c \<noteq> 0)"
proof -
  from assms obtain tps msgs old where ok: "state_ok (tps, msgs, old)"
    and t: "topics r = tps" and c: "next_cursor r = old"
    and h: "has_more r \<longleftrightarrow> tps \<noteq> [] \<and> \<not> contains_last_topic data \<and> old \<noteq> None"
    by (rule parse_Inr)
  have m: "set msgs = (\<Union>t \<in> set tps. set (replies t))"
    and o: "oldest_of (timestamp_usec ` set msgs) old"
    using ok unfolding state_ok_def prod.case by blast+
  have o': "oldest_of (timestamp_usec ` (\<Union>t \<in> set tps. set (replies t))) old"
    using o unfolding m .
  have "\<forall>c. old = Some c \<longrightarrow> ival c \<noteq> 0"
    using o by (auto simp: oldest_of_def)
  with h o' show ?thesis
    unfolding t c contains_last_topic_iff[symmetric] by blast
qed

theorem C4_witness:
  "parse_topics_with_threads (\<lambda>_. None) sample_response ''S'' = Inr sample_page
   \<and> has_more sample_page \<and> topics sample_page \<noteq> []
   \<and> next_cursor sample_page = Some (PyInt 1700000000000001)"
proof -
  have e: "parse_topics_with_threads (\<lambda>_. None) sample_response ''S'' = Inr sample_page"
    unfolding sample_page_def by code_simp
  have c: "next_cursor sample_page = Some (PyInt 1700000000000001)"
    unfolding sample_page_def by code_simp
  have t: "topics sample_page \<noteq> []"
    unfolding sample_page_def by code_simp
  have l: "\<not> contains_last_topic sample_response"
    by code_simp
  from C4_has_more_iff[OF e] e c t l show ?thesis
    unfolding contains_last_topic_iff by simp
qed

text \<open>
  C10: every message of the flat list \<open>messages\<close> has a \<open>topic_id\<close> that is not \<open>None\<close>: it
  is the non-empty id of a topic of the page, and the message is among that topic's
  replies. The same holds of every reply of every topic.
\<close>

theorem C10_messages_have_topic_id:
  assumes "parse_topics_with_threads fmt data space = Inr r" and "m \<in> set (messages r)"
  shows "topic_id m \<noteq> None
         \<and> (\<exists>t \<in> set (topics r).
               m \<in> set (replies t) \<and> topic_id m = Some (t_topic_id t) \<and> t_topic_id t \<noteq> [])
         \<and> (\<forall>t \<in> set (topics r). \<forall>m' \<in> set (replies t).
               topic_id m' = Some (t_topic_id t) \<and> t_topic_id t \<noteq> [])"
proof -
  from assms(1) obtain tps msgs old where ok: "state_ok (tps, msgs, old)"
    and ms: "messages r = dedupe text_key {} (sort_key (\<lambda>m. - sort_ts m) msgs)"
    and t: "topics r = tps"
    by (rule parse_Inr)
  have a: "\<forall>t \<in> set tps. topic_ok t"
    and b: "set msgs = (\<Union>t \<in> set tps. set (replies t))"
    using ok unfolding state_ok_def prod.case by blast+
  from assms(2) have "m \<in> set (dedupe text_key {} (sort_key (\<lambda>m. - sort_ts m) msgs))"
    by (simp add: ms)
  then have "m \<in> set (sort_key (\<lambda>m. - sort_ts m) msgs)"
    by (rule subsetD[OF dedupe_subset])
  then have "m \<in> set msgs" by simp
  with b obtain tp where tp: "tp \<in> set tps" "m \<in> set (replies tp)" by auto
  from a have all: "\<forall>t \<in> set tps. \<forall>m' \<in> set (replies t).
      topic_id m' = Some (t_topic_id t) \<and> t_topic_id t \<noteq> []"
    by (simp add: topic_ok_def)
  with tp have "topic_id m = Some (t_topic_id tp) \<and> t_topic_id tp \<noteq> []" by blast
  with tp all show ?thesis
    unfolding t by auto
qed

theorem C10_witness:
  "parse_topics_with_threads (\<lambda>_. None) sample_response ''S'' = Inr sample_page
   \<and> hd (messages sample_page) \<in> set (messages sample_page)
   \<and> message_id (hd (messages sample_page)) = Some ''m3''
   \<and> topic_id (hd (messages sample_page)) = Some ''T1''"
proof -
  have e: "parse_topics_with_threads (\<lambda>_. None) sample_response ''S'' = Inr sample_page"
    unfolding sample_page_def by code_simp
  have m: "hd (messages sample_page) \<in> set (messages sample_page)"
    unfolding sample_page_def by code_simp
  have v: "message_id (hd (messages sample_page)) = Some ''m3''"
    "topic_id (hd (messages sample_page)) = Some ''T1''"
    unfolding sample_page_def by code_simp+
  from C10_messages_have_topic_id[OF e m] e m v show ?thesis
    by simp
qed

text \<open>
  A message array with a text but no topic id around it is parsed as a message and then
  dropped: the page has neither a topic nor a message.
\<close>

lemma fragment_without_topic_dropped:
  "try_parse_message (\<lambda>_. None) ''S'' (sample_message ''m1'' ''1700000000000002'' ''hello'') None
     \<noteq> Inr None
   \<and> parse_topics_with_threads (\<lambda>_. None)
       (JList [JNull, sample_message ''m1'' ''1700000000000002'' ''hello'']) ''S''
     = Inr \<lparr>messages = [], topics = [], has_more = False, next_cursor = None,
            total_topics = 0, total_messages = 0\<rparr>"
  by code_simp

subsection \<open>Fetching several pages\<close>

lemma fetch_pages_calls:
  "fetch_pages P s ps ir n pn c acc = (out, calls) \<Longrightarrow>
     length calls \<le> n \<and> (0 < n \<longrightarrow> calls \<noteq> [] \<and> hd calls = c) \<and>
     (\<forall>k. Suc k < length calls \<longrightarrow>
        (\<exists>p. P (pn + k) s ps (calls ! k) ir = Inr p \<and> has_more p \<and> truthy (next_cursor p)
             \<and> calls ! Suc k = next_cursor p))"
proof (induction n arbitrary: pn c acc out calls)
  case 0
  then show ?case by simp
next
  case (Suc n)
  show ?case
  proof (cases "P pn s ps c ir")
    case (Inl e)
    with Suc.prems show ?thesis by auto
  next
    case (Inr result)
    show ?thesis
    proof (cases "\<not> has_more result \<or> \<not> truthy (next_cursor result)")
      case True
      with Suc.prems Inr show ?thesis by auto
    next
      case False
      obtain out' calls' where
        rec: "fetch_pages P s ps ir n (Suc pn) (next_cursor result) (acc @ messages result)
                = (out', calls')"
        by (cases "fetch_pages P s ps ir n (Suc pn) (next_cursor result) (acc @ messages result)")
      with Suc.prems Inr False have calls: "calls = c # calls'" and "out = out'"
        by simp_all
      from Suc.IH[OF rec] have len: "length calls' \<le> n"
        and hd: "0 < n \<longrightarrow> calls' \<noteq> [] \<and> hd calls' = next_cursor result"
        and nxt: "\<forall>k. Suc k < length calls' \<longrightarrow>
          (\<exists>p. P (Suc pn + k) s ps (calls' ! k) ir = Inr p \<and> has_more p \<and> truthy (next_cursor p)
               \<and> calls' ! Suc k = next_cursor p)"
        by simp_all
      have "\<exists>p. P (pn + k) s ps (calls ! k) ir = Inr p \<and> has_more p \<and> truthy (next_cursor p)
               \<and> calls ! Suc k = next_cursor p" if k: "Suc k < length calls" for k
      proof (cases k)
        case 0
        from k calls have "calls' \<noteq> []" by auto
        with len have "0 < n" by (cases n) auto
        with hd have "hd calls' = next_cursor result" by simp
        with \<open>calls' \<noteq> []\<close> have "calls' ! 0 = next_cursor result"
          by (simp add: hd_conv_nth)
        with 0 calls Inr False show ?thesis by simp
      next
        case (Suc j)
        with k calls have "Suc j < length calls'" by simp
        with nxt obtain p where "P (Suc pn + j) s ps (calls' ! j) ir = Inr p" "has_more p"
          "truthy (next_cursor p)" "calls' ! Suc j = next_cursor p" by blast
        with Suc calls show ?thesis by simp
      qed
      with len calls show ?thesis by simp
    qed
  qed
qed

lemma fetch_pages_raised:
  "fetch_pages P s ps ir n pn c acc = (out, calls) \<Longrightarrow> k < length calls \<Longrightarrow>
     P (pn + k) s ps (calls ! k) ir = Inl e \<Longrightarrow> out = Inl e"
proof (induction n arbitrary: pn c acc out calls k)
  case 0
  then show ?case by simp
next
  case (Suc n)
  show ?case
  proof (cases "P pn s ps c ir")
    case (Inl e')
    with Suc.prems show ?thesis by auto
  next
    case (Inr result)
    show ?thesis
    proof (cases "\<not> has_more result \<or> \<not> truthy (next_cursor result)")
      case True
      with Suc.prems Inr show ?thesis by auto
    next
      case False
      obtain out' calls' where
        rec: "fetch_pages P s ps ir n (Suc pn) (next_cursor result) (acc @ messages result)
                = (out', calls')"
        by (cases "fetch_pages P s ps ir n (Suc pn) (next_cursor result) (acc @ messages result)")
      with Suc.prems(1) Inr False have calls: "calls = c # calls'" and out: "out = out'"
        by simp_all
      show ?thesis
      proof (cases k)
        case 0
        with Suc.prems(3) calls Inr show ?thesis by simp
      next
        case (Suc j)
        with Suc.prems(2,3) calls have "j < length calls'"
          and "P (Suc pn + j) s ps (calls' ! j) ir = Inl e" by simp_all
        from Suc.IH[OF rec this] out show ?thesis by simp
      qed
    qed
  qed
qed

lemma fetch_pages_cong:
  "fetch_pages P s ps ir n pn c acc = (out, calls) \<Longrightarrow>
     (\<forall>k < length calls. P' (pn + k) s ps (calls ! k) ir = P (pn + k) s ps (calls ! k) ir) \<Longrightarrow>
     fetch_pages P' s ps ir n pn c acc = (out, calls)"
proof (induction n arbitrary: pn c acc out calls)
  case 0
  then show ?case by simp
next
  case (Suc n)
  from fetch_pages_calls[OF Suc.prems(1)] have ne: "calls \<noteq> []" and h: "hd calls = c"
    by simp_all
  then have c0: "calls ! 0 = c" by (simp add: hd_conv_nth)
  from ne Suc.prems(2) have "P' (pn + 0) s ps (calls ! 0) ir = P (pn + 0) s ps (calls ! 0) ir"
    by (metis length_greater_0_conv)
  then have same: "P' pn s ps c ir = P pn s ps c ir"
    using c0 by simp
  show ?case
  proof (cases "P pn s ps c ir")
    case (Inl e)
    with Suc.prems(1) same show ?thesis by simp
  next
    case (Inr result)
    show ?thesis
    proof (cases "\<not> has_more result \<or> \<not> truthy (next_cursor result)")
      case True
      with Suc.prems(1) Inr same show ?thesis by auto
    next
      case False
      obtain out' calls' where
        rec: "fetch_pages P s ps ir n (Suc pn) (next_cursor result) (acc @ messages result)
                = (out', calls')"
        by (cases "fetch_pages P s ps ir n (Suc pn) (next_cursor result) (acc @ messages result)")
      with Suc.prems(1) Inr False have calls: "calls = c # calls'" and out: "out = out'"
        by simp_all
      have "\<forall>k < length calls'.
          P' (Suc pn + k) s ps (calls' ! k) ir = P (Suc pn + k) s ps (calls' ! k) ir"
      proof (intro allI impI)
        fix k assume "k < length calls'"
        then have "Suc k < length calls" by (simp add: calls)
        with Suc.prems(2) have
          "P' (pn + Suc k) s ps (calls ! Suc k) ir = P (pn + Suc k) s ps (calls ! Suc k) ir"
          by blast
        then show "P' (Suc pn + k) s ps (calls' ! k) ir = P (Suc pn + k) s ps (calls' ! k) ir"
          by (simp add: calls)
      qed
      from Suc.IH[OF rec this] Inr False same calls out show ?thesis
        by simp
    qed
  qed
qed

lemma get_all_messages_fetch:
  assumes "get_all_messages P s max_pages ps ir = (out, calls)"
  obtains out' where "fetch_pages P s ps ir (nat max_pages) 0 None [] = (out', calls)"
    and "out = (case out' of Inl e \<Rightarrow> Inl e | Inr all_messages \<Rightarrow> Inr (dedupe msg_key {} all_messages))"
proof -
  obtain out' calls' where f: "fetch_pages P s ps ir (nat max_pages) 0 None [] = (out', calls')"
    by (cases "fetch_pages P s ps ir (nat max_pages) 0 None []")
  with assms have "calls' = calls"
    and "out = (case out' of Inl e \<Rightarrow> Inl e | Inr all_messages \<Rightarrow> Inr (dedupe msg_key {} all_messages))"
    by (auto simp: get_all_messages_def split: sum.splits)
  with f that show ?thesis by blast
qed


text \<open>
  C2: \<open>get_all_messages\<close> is a total function, so the loop ends whatever the calls of
  \<open>get_messages_paginated\<close> return. With \<open>calls\<close> the cursors of the calls it makes, in
  order: there are at most \<open>max_pages\<close> of them; the call that returns a page with
  \<open>has_more\<close> false or with a cursor that is \<open>None\<close> (or 0) is the last one, and so is a
  call that raises, whose exception is the outcome; the first call has the cursor \<open>None\<close>
  and every later one the \<open>next_cursor\<close> of the page before; and the outcome depends on
  the backend through these calls only.
\<close>

theorem C2_at_most_max_pages_calls:
  assumes "get_all_messages paginated space_id max_pages page_size include_replies = (out, calls)"
  shows "length calls \<le> nat max_pages
   \<and> (\<forall>k p. k < length calls
         \<and> paginated k space_id page_size (calls ! k) include_replies = Inr p
         \<and> (\<not> has_more p \<or> next_cursor p = None \<or> (\<exists>c. next_cursor p = Some c \<and> ival c = 0))
         \<longrightarrow> length calls = Suc k)
   \<and> (\<forall>k e. k < length calls
         \<and> paginated k space_id page_size (calls ! k) include_replies = Inl e
         \<longrightarrow> length calls = Suc k \<and> out = Inl e)
   \<and> (0 < max_pages \<longrightarrow> calls \<noteq> [] \<and> calls ! 0 = None)
   \<and> (\<forall>k. Suc k < length calls
         \<longrightarrow> (\<exists>p. paginated k space_id page_size (calls ! k) include_replies = Inr p
                  \<and> calls ! Suc k = next_cursor p))
   \<and> (\<forall>paginated'.
         (\<forall>k < length calls.
            paginated' k space_id page_size (calls ! k) include_replies
              = paginated k space_id page_size (calls ! k) include_replies)
         \<longrightarrow> get_all_messages paginated' space_id max_pages page_size include_replies
               = (out, calls))"
proof -
  from assms obtain out' where
    f: "fetch_pages paginated space_id page_size include_replies (nat max_pages) 0 None []
          = (out', calls)"
    and o: "out = (case out' of Inl e \<Rightarrow> Inl e
                   | Inr all_messages \<Rightarrow> Inr (dedupe msg_key {} all_messages))"
    by (rule get_all_messages_fetch)
  from fetch_pages_calls[OF f] have len: "length calls \<le> nat max_pages"
    and first: "0 < nat max_pages \<longrightarrow> calls \<noteq> [] \<and> hd calls = None"
    and nxt: "\<forall>k. Suc k < length calls \<longrightarrow>
        (\<exists>p. paginated k space_id page_size (calls ! k) include_replies = Inr p
             \<and> has_more p \<and> truthy (next_cursor p) \<and> calls ! Suc k = next_cursor p)"
    by simp_all
  have stop: "length calls = Suc k"
    if "k < length calls"
      and "paginated k space_id page_size (calls ! k) include_replies = Inr p"
      and "\<not> has_more p \<or> next_cursor p = None \<or> (\<exists>c. next_cursor p = Some c \<and> ival c = 0)"
    for k p
  proof (rule ccontr)
    assume "length calls \<noteq> Suc k"
    with that(1) have "Suc k < length calls" by simp
    with nxt obtain p' where
      "paginated k space_id page_size (calls ! k) include_replies = Inr p'"
      "has_more p'" "truthy (next_cursor p')" by blast
    with that(2,3) show False by (auto simp: truthy_def)
  qed
  have raised: "length calls = Suc k \<and> out = Inl e"
    if "k < length calls"
      and "paginated k space_id page_size (calls ! k) include_replies = Inl e" for k e
  proof
    show "length calls = Suc k"
    proof (rule ccontr)
      assume "length calls \<noteq> Suc k"
      with that(1) have "Suc k < length calls" by simp
      with nxt that(2) show False by auto
    qed
    from fetch_pages_raised[OF f that(1)] that(2) have "out' = Inl e" by simp
    with o show "out = Inl e" by simp
  qed
  have first': "0 < max_pages \<longrightarrow> calls \<noteq> [] \<and> calls ! 0 = None"
    using first by (auto simp: hd_conv_nth)
  have nxt': "\<forall>k. Suc k < length calls
         \<longrightarrow> (\<exists>p. paginated k space_id page_size (calls ! k) include_replies = Inr p
                  \<and> calls ! Suc k = next_cursor p)"
    using nxt by blast
  have cong: "get_all_messages paginated' space_id max_pages page_size include_replies
               = (out, calls)"
    if "\<forall>k < length calls.
            paginated' k space_id page_size (calls ! k) include_replies
              = paginated k space_id page_size (calls ! k) include_replies" for paginated'
  proof -
    from that have "\<forall>k < length calls.
            paginated' (0 + k) space_id page_size (calls ! k) include_replies
              = paginated (0 + k) space_id page_size (calls ! k) include_replies"
      by simp
    from fetch_pages_cong[of paginated space_id page_size include_replies "nat max_pages" 0
        None "[]" out' calls paginated', OF f this] o show ?thesis
      by (simp add: get_all_messages_def split: sum.splits)
  qed
  from len stop raised first' nxt' cong show ?thesis
    by blast
qed

theorem C2_witness:
  "get_all_messages
     (\<lambda>k s ps c ir. parse_topics_with_threads (\<lambda>_. None) sample_response s) ''S'' 3 25 True
     = (Inr (messages sample_page),
        [None, Some (PyInt 1700000000000001), Some (PyInt 1700000000000001)])
   \<and> length [None, Some (PyInt 1700000000000001), Some (PyInt 1700000000000001)] \<le> nat 3
   \<and> has_more sample_page \<and> next_cursor sample_page = Some (PyInt 1700000000000001)"
proof -
  have g: "get_all_messages
     (\<lambda>k s ps c ir. parse_topics_with_threads (\<lambda>_. None) sample_response s) ''S'' 3 25 True
     = (Inr (messages sample_page),
        [None, Some (PyInt 1700000000000001), Some (PyInt 1700000000000001)])"
    unfolding sample_page_def by code_simp
  have h: "has_more sample_page" "next_cursor sample_page = Some (PyInt 1700000000000001)"
    unfolding sample_page_def by code_simp+
  from C2_at_most_max_pages_calls[OF g] g h show ?thesis
    by simp
qed

subsection \<open>Deduplication of messages\<close>





end
